theory Spec2Isabelle
  imports Complex_Main "HOL-Library.Sublist" "HOL-Library.Log_Nat" "HOL-Library.Code_Target_Nat"
begin

section \<open>The Reef bot: a shallow embedding of \<open>scripts/agent-bot.py\<close>\<close>

text \<open>
  The script has two functions. \<open>act\<close> POSTs one request body to the game server, with a
  bounded retry loop, and returns the decoded reply or \<open>{"success": False}\<close>. \<open>run\<close> is an
  endless loop: it calls \<open>act\<close> with the \<open>look\<close> action, reads the status snapshot it got,
  and calls \<open>act\<close> again according to a chain of \<open>if\<close> branches, sleeping in between.

  Modelling decisions, all of them visible in the definitions below:
  \<^item> A decoded JSON reply is a value of the datatype \<open>json\<close>. A Python dict is an association
    list read with \<open>map_of\<close>. A JSON number is a Python \<open>int\<close> (unbounded) or a Python
    \<open>float\<close>: an IEEE double, given by the rational it denotes, or an infinity or NaN (the
    decoder accepts \<open>1e999\<close>, \<open>Infinity\<close> and \<open>NaN\<close>). Float arithmetic rounds to the
    nearest double, ties to even; the float literals of the script denote the nearest
    doubles. Only a rational that is a double stands for a Python float under \<open>Fin\<close>;
    the decoder and the arithmetic produce no other. Negative zero is not distinguished
    from zero; no operation of the script tells them apart. Strings are byte lists.
  \<^item> Every Python operation of the script that can raise on a value of the wrong type or
    size returns \<open>py_error + 'a\<close>; the model has a branch for each of them. The errors are
    exceptions of class \<open>Exception\<close>, the ones \<open>except Exception\<close> catches; a
    \<open>KeyboardInterrupt\<close> during a sleep or a request is not modelled.
  \<^item> The server is a sequence \<open>env :: nat \<Rightarrow> reply\<close>: the outcome of the \<open>i\<close>-th HTTP request
    made by the process. The random generator is read through two natural numbers per
    iteration, \<open>x\<close> for \<open>random.random()\<close> and \<open>y\<close> for \<open>random.randint(10, 20)\<close>.
  \<^item> \<open>time.sleep\<close> is modelled as CPython 3.11 on Linux has it: the duration is converted to
    a signed 64-bit count of nanoseconds (\<open>OverflowError\<close> when it does not fit), a negative
    duration is a \<open>ValueError\<close>, and the operating system refuses a duration beyond what
    its clock can hold (\<open>OSError\<close>). That last bound depends on the machine, so it is the
    parameter \<open>tmax\<close> of \<open>act\<close>. The fixed sleeps of the script (5 to 65 seconds) are taken
    to succeed.
  \<^item> Effects are recorded, in order: at the level of the loop body as commands (a call of
    \<open>act\<close>, a \<open>time.sleep\<close>), at the level of the process as events (an HTTP POST, a sleep).
    What \<open>log\<close> prints is not recorded; only that building its message can raise is.
\<close>

subsection \<open>Python floats\<close>

datatype pyfloat = Fin rat | PosInf | NegInf | NaN

text \<open>\<open>ilog2 a\<close> is the exponent \<open>e\<close> with \<open>2\<^sup>e \<le> a < 2\<^sup>e\<^sup>+\<^sup>1\<close>, for a positive \<open>a\<close>.\<close>

definition ilog2 :: "rat \<Rightarrow> int" where
  "ilog2 a =
     (case quotient_of a of
        (n, d) \<Rightarrow> (let k = bitlen n - bitlen d in if 2 powi k \<le> a then k else k - 1))"

text \<open>The nearest integer, ties to the even one.\<close>

definition round_even :: "rat \<Rightarrow> int" where
  "round_even x =
     (let f = \<lfloor>x\<rfloor>; r = x - of_int f
      in if r < 1 / 2 then f else if 1 / 2 < r then f + 1 else if even f then f else f + 1)"

text \<open>
  Rounding a positive rational to a double: 53 significant bits, the spacing of the
  subnormal numbers at the bottom, and infinity from \<open>2\<^sup>1\<^sup>0\<^sup>2\<^sup>4\<close> on.
\<close>

definition fround_pos :: "rat \<Rightarrow> pyfloat" where
  "fround_pos a =
     (let p = max (ilog2 a - 52) (- 1074);
          v = of_int (round_even (a / 2 powi p)) * 2 powi p
      in if 2 powi 1024 \<le> v then PosInf else Fin v)"

fun fneg :: "pyfloat \<Rightarrow> pyfloat" where
  "fneg (Fin a) = Fin (- a)"
| "fneg PosInf = NegInf"
| "fneg NegInf = PosInf"
| "fneg NaN = NaN"

definition fround :: "rat \<Rightarrow> pyfloat" where
  "fround q = (if q = 0 then Fin 0 else if 0 < q then fround_pos q else fneg (fround_pos (- q)))"

text \<open>A float literal of the source denotes the double nearest to its decimal value.\<close>

definition float_lit :: "rat \<Rightarrow> pyfloat" where
  "float_lit q = fround q"

fun fadd :: "pyfloat \<Rightarrow> pyfloat \<Rightarrow> pyfloat" where
  "fadd (Fin a) (Fin b) = fround (a + b)"
| "fadd NaN y = NaN"
| "fadd x NaN = NaN"
| "fadd PosInf NegInf = NaN"
| "fadd NegInf PosInf = NaN"
| "fadd PosInf y = PosInf"
| "fadd NegInf y = NegInf"
| "fadd (Fin a) y = y"

fun fmul :: "pyfloat \<Rightarrow> pyfloat \<Rightarrow> pyfloat" where
  "fmul (Fin a) (Fin b) = fround (a * b)"
| "fmul NaN y = NaN"
| "fmul x NaN = NaN"
| "fmul (Fin a) y = (if a = 0 then NaN else if 0 < a then y else fneg y)"
| "fmul x (Fin b) = (if b = 0 then NaN else if 0 < b then x else fneg x)"
| "fmul x y = (if x = y then PosInf else NegInf)"

text \<open>
  Comparisons of Python are exact, also between an \<open>int\<close> and a \<open>float\<close>; every comparison
  with NaN is false.
\<close>

fun ext_less :: "pyfloat \<Rightarrow> pyfloat \<Rightarrow> bool" where
  "ext_less (Fin a) (Fin b) = (a < b)"
| "ext_less NaN y = False"
| "ext_less x NaN = False"
| "ext_less x NegInf = False"
| "ext_less PosInf y = False"
| "ext_less x y = True"

fun ext_eq :: "pyfloat \<Rightarrow> pyfloat \<Rightarrow> bool" where
  "ext_eq NaN y = False"
| "ext_eq x NaN = False"
| "ext_eq x y = (x = y)"

definition ext_le :: "pyfloat \<Rightarrow> pyfloat \<Rightarrow> bool" where
  "ext_le x y = (ext_less x y \<or> ext_eq x y)"

subsection \<open>JSON values and the Python operations used on them\<close>

datatype json =
    JNull
  | JBool bool
  | JInt int
  | JFloat pyfloat
  | JStr string
  | JArr "json list"
  | JObj "(string \<times> json) list"

datatype py_error =
  AttributeError | TypeError | KeyError | ValueError | OverflowError | OSError | RequestException

definition and_then :: "py_error + 'a \<Rightarrow> ('a \<Rightarrow> py_error + 'b) \<Rightarrow> py_error + 'b" where
  "and_then m f = (case m of Inl e \<Rightarrow> Inl e | Inr v \<Rightarrow> f v)"

text \<open>\<open>d.get(k, default)\<close>: only a dict has the method.\<close>

definition py_get :: "json \<Rightarrow> string \<Rightarrow> json \<Rightarrow> py_error + json" where
  "py_get d k dflt =
     (case d of
        JObj kvs \<Rightarrow> Inr (case map_of kvs k of None \<Rightarrow> dflt | Some v \<Rightarrow> v)
      | _ \<Rightarrow> Inl AttributeError)"

text \<open>\<open>d[k]\<close> with a string key: \<open>KeyError\<close> on a dict without the key.\<close>

definition py_item :: "json \<Rightarrow> string \<Rightarrow> py_error + json" where
  "py_item d k =
     (case d of
        JObj kvs \<Rightarrow> (case map_of kvs k of None \<Rightarrow> Inl KeyError | Some v \<Rightarrow> Inr v)
      | _ \<Rightarrow> Inl TypeError)"

text \<open>
  \<open>needle in x\<close> for a string \<open>needle\<close>: substring of a string, element of a list, key of a
  dict; \<open>TypeError\<close> on \<open>None\<close>, a bool or a number.
\<close>

definition py_in :: "string \<Rightarrow> json \<Rightarrow> py_error + bool" where
  "py_in needle x =
     (case x of
        JStr s \<Rightarrow> Inr (sublist needle s)
      | JArr xs \<Rightarrow> Inr (JStr needle \<in> set xs)
      | JObj kvs \<Rightarrow> Inr (needle \<in> set (map fst kvs))
      | _ \<Rightarrow> Inl TypeError)"

text \<open>Truth value of a decoded JSON value; NaN and the infinities are true.\<close>

fun truthy :: "json \<Rightarrow> bool" where
  "truthy JNull = False"
| "truthy (JBool b) = b"
| "truthy (JInt i) = (i \<noteq> 0)"
| "truthy (JFloat f) = (f \<noteq> Fin 0)"
| "truthy (JStr s) = (s \<noteq> [])"
| "truthy (JArr xs) = (xs \<noteq> [])"
| "truthy (JObj kvs) = (kvs \<noteq> [])"

text \<open>A numeric operand of \<open>+\<close>, \<open>*\<close>, \<open><\<close>, \<open>>=\<close>, \<open>==\<close>: a bool counts as the int 0 or 1.\<close>

datatype number = PyInt int | PyFloat pyfloat

fun as_num :: "json \<Rightarrow> number option" where
  "as_num (JInt i) = Some (PyInt i)"
| "as_num (JBool b) = Some (PyInt (if b then 1 else 0))"
| "as_num (JFloat f) = Some (PyFloat f)"
| "as_num _ = None"

text \<open>The value a comparison sees: that of an \<open>int\<close> is not rounded.\<close>

fun exact :: "number \<Rightarrow> pyfloat" where
  "exact (PyInt i) = Fin (of_int i)"
| "exact (PyFloat f) = f"

text \<open>
  The conversion of an \<open>int\<close> operand when the other one is a \<open>float\<close>: \<open>OverflowError\<close>
  when the int is beyond the doubles.
\<close>

definition to_float :: "number \<Rightarrow> py_error + pyfloat" where
  "to_float a =
     (case a of
        PyFloat f \<Rightarrow> Inr f
      | PyInt i \<Rightarrow>
          (case fround (of_int i) of
             Fin v \<Rightarrow> Inr (Fin v)
           | _ \<Rightarrow> Inl OverflowError))"

definition num_add :: "number \<Rightarrow> number \<Rightarrow> py_error + number" where
  "num_add a b =
     (case (a, b) of
        (PyInt i, PyInt j) \<Rightarrow> Inr (PyInt (i + j))
      | _ \<Rightarrow> and_then (to_float a) (\<lambda>x. and_then (to_float b) (\<lambda>y. Inr (PyFloat (fadd x y)))))"

definition num_mul :: "number \<Rightarrow> number \<Rightarrow> py_error + number" where
  "num_mul a b =
     (case (a, b) of
        (PyInt i, PyInt j) \<Rightarrow> Inr (PyInt (i * j))
      | _ \<Rightarrow> and_then (to_float a) (\<lambda>x. and_then (to_float b) (\<lambda>y. Inr (PyFloat (fmul x y)))))"

definition num_less :: "number \<Rightarrow> number \<Rightarrow> bool" where
  "num_less a b = ext_less (exact a) (exact b)"

definition num_ge :: "number \<Rightarrow> number \<Rightarrow> bool" where
  "num_ge a b = ext_le (exact b) (exact a)"

definition num_eq :: "number \<Rightarrow> number \<Rightarrow> bool" where
  "num_eq a b = ext_eq (exact a) (exact b)"

text \<open>\<open>x == n\<close>, \<open>x + n\<close>, \<open>x * n\<close> and \<open>x < n\<close> for a decoded value \<open>x\<close> and a number \<open>n\<close>.\<close>

definition py_eq_num :: "json \<Rightarrow> number \<Rightarrow> bool" where
  "py_eq_num x n = (case as_num x of None \<Rightarrow> False | Some a \<Rightarrow> num_eq a n)"

definition py_add :: "json \<Rightarrow> number \<Rightarrow> py_error + number" where
  "py_add x n = (case as_num x of None \<Rightarrow> Inl TypeError | Some a \<Rightarrow> num_add a n)"

definition py_mul :: "json \<Rightarrow> number \<Rightarrow> py_error + number" where
  "py_mul x n = (case as_num x of None \<Rightarrow> Inl TypeError | Some a \<Rightarrow> num_mul a n)"

definition py_less :: "json \<Rightarrow> number \<Rightarrow> py_error + bool" where
  "py_less x n = (case as_num x of None \<Rightarrow> Inl TypeError | Some a \<Rightarrow> Inr (num_less a n))"

text \<open>The elements a \<open>for\<close> over the value visits; the prefix \<open>x[:n]\<close> of a sequence.\<close>

definition py_iter :: "json \<Rightarrow> py_error + json list" where
  "py_iter x =
     (case x of
        JArr xs \<Rightarrow> Inr xs
      | JStr s \<Rightarrow> Inr (map (\<lambda>c. JStr [c]) s)
      | JObj kvs \<Rightarrow> Inr (map (\<lambda>kv. JStr (fst kv)) kvs)
      | _ \<Rightarrow> Inl TypeError)"

definition py_slice :: "json \<Rightarrow> nat \<Rightarrow> py_error + json list" where
  "py_slice x n =
     (case x of
        JArr xs \<Rightarrow> Inr (take n xs)
      | JStr s \<Rightarrow> Inr (map (\<lambda>c. JStr [c]) (take n s))
      | _ \<Rightarrow> Inl TypeError)"

subsection \<open>\<open>time.sleep\<close> and the random generator\<close>

text \<open>
  The conversion of a duration to a signed 64-bit count of nanoseconds: an \<open>int\<close> is
  multiplied exactly, a \<open>float\<close> in double arithmetic.
\<close>

definition fits_ns :: "number \<Rightarrow> bool" where
  "fits_ns v =
     (case v of
        PyInt i \<Rightarrow> - 9223372036 \<le> i \<and> i \<le> 9223372036
      | PyFloat f \<Rightarrow>
          (case fmul f (Fin 1000000000) of
             Fin d \<Rightarrow> - (2 ^ 63) \<le> d \<and> d < 2 ^ 63
           | _ \<Rightarrow> False))"

text \<open>
  \<open>time.sleep(v)\<close>: the duration slept, or the exception. \<open>tmax\<close> is the longest duration the
  operating system accepts.
\<close>

definition time_sleep :: "rat \<Rightarrow> number \<Rightarrow> py_error + rat" where
  "time_sleep tmax v =
     (case exact v of
        NaN \<Rightarrow> Inl ValueError
      | Fin d \<Rightarrow>
          if \<not> fits_ns v then Inl OverflowError
          else if d < 0 then Inl ValueError
          else if tmax < d then Inl OSError
          else Inr d
      | _ \<Rightarrow> Inl OverflowError)"

text \<open>
  \<open>random.random()\<close> returns a multiple of \<open>2\<^sup>-\<^sup>5\<^sup>3\<close> in \<open>[0, 1)\<close>, and \<open>random.randint(a, b)\<close> an
  integer from \<open>a\<close> to \<open>b\<close>; which one is decided by the generator, read here as a natural
  number.
\<close>

definition py_random :: "nat \<Rightarrow> pyfloat" where
  "py_random x = Fin (of_nat (x mod 2 ^ 53) / 2 ^ 53)"

definition randint :: "int \<Rightarrow> int \<Rightarrow> nat \<Rightarrow> int" where
  "randint a b y = a + int (y mod nat (b - a + 1))"

subsection \<open>Request bodies\<close>

definition body0 :: "string \<Rightarrow> json" where
  "body0 a = JObj [(''action'', JStr a)]"

definition body1 :: "string \<Rightarrow> json \<Rightarrow> json" where
  "body1 a t = JObj [(''action'', JStr a), (''target'', t)]"

definition failure :: json where
  "failure = JObj [(''success'', JBool False)]"

subsection \<open>\<open>act\<close>: one request with bounded retries\<close>

datatype reply = Raises | Json json

datatype event = Post json | Sleep rat

datatype attempt = Returned json | RateLimited rat | Failed py_error

text \<open>
  The message of the \<open>log\<close> call before \<open>return d\<close> reads \<open>body['action']\<close> and
  \<open>d.get('narrative','')[:70]\<close>; either can raise.
\<close>

definition log_line :: "json \<Rightarrow> json \<Rightarrow> py_error + unit" where
  "log_line body d =
     and_then (py_item body ''action'') (\<lambda>_.
     and_then (py_get d ''narrative'' (JStr [])) (\<lambda>n.
     and_then (py_slice n 70) (\<lambda>_. Inr ())))"

text \<open>
  The body of the \<open>try\<close>, given what the request produced. \<open>RateLimited t\<close>: the branch
  slept \<open>t\<close> seconds and reached \<open>continue\<close>. \<open>Failed e\<close>: an exception reached the handler.
\<close>

definition attempt :: "rat \<Rightarrow> json \<Rightarrow> reply \<Rightarrow> attempt" where
  "attempt tmax body rep =
     (case rep of
        Raises \<Rightarrow> Failed RequestException
      | Json d \<Rightarrow>
          (case and_then (py_get d ''error'' (JStr [])) (py_in ''Rate limit'') of
             Inl e \<Rightarrow> Failed e
           | Inr True \<Rightarrow>
               (case and_then (py_get d ''retryAfterSec'' (JInt 3)) (\<lambda>x.
                     and_then (py_add x (PyInt 1)) (time_sleep tmax)) of
                  Inl e \<Rightarrow> Failed e
                | Inr t \<Rightarrow> RateLimited t)
           | Inr False \<Rightarrow>
               (case log_line body d of
                  Inl e \<Rightarrow> Failed e
                | Inr _ \<Rightarrow> Returned d)))"

text \<open>
  The \<open>for\<close> loop over \<open>range(retries)\<close>. The result is the value returned, the events in
  order, and the index of the next unused reply.
\<close>

fun act_loop :: "nat \<Rightarrow> rat \<Rightarrow> json \<Rightarrow> (nat \<Rightarrow> reply) \<Rightarrow> nat \<Rightarrow> json \<times> event list \<times> nat" where
  "act_loop 0 tmax body env i = (failure, [], i)"
| "act_loop (Suc n) tmax body env i =
     (case attempt tmax body (env i) of
        Returned d \<Rightarrow> (d, [Post body], Suc i)
      | RateLimited t \<Rightarrow>
          (case act_loop n tmax body env (Suc i) of
             (d, evs, j) \<Rightarrow> (d, Post body # Sleep t # evs, j))
      | Failed e \<Rightarrow>
          (case act_loop n tmax body env (Suc i) of
             (d, evs, j) \<Rightarrow> (d, Post body # Sleep 5 # evs, j)))"

definition act :: "rat \<Rightarrow> json \<Rightarrow> (nat \<Rightarrow> reply) \<Rightarrow> nat \<Rightarrow> json \<times> event list \<times> nat" where
  "act tmax body env i = act_loop 3 tmax body env i"

subsection \<open>\<open>run\<close>: one iteration of the loop\<close>

datatype cmd = Act json | Pause rat

datatype outcome = Continue | Raised py_error

text \<open>Sequencing: what follows an exception is not executed.\<close>

definition seq :: "cmd list \<times> outcome \<Rightarrow> cmd list \<times> outcome \<Rightarrow> cmd list \<times> outcome" where
  "seq p q = (case snd p of Continue \<Rightarrow> (fst p @ fst q, snd q) | Raised e \<Rightarrow> p)"

definition eval_then :: "py_error + 'a \<Rightarrow> ('a \<Rightarrow> cmd list \<times> outcome) \<Rightarrow> cmd list \<times> outcome" where
  "eval_then m k = (case m of Inl e \<Rightarrow> ([], Raised e) | Inr v \<Rightarrow> k v)"

record status =
  agent :: json
  hp :: json
  mhp :: json
  en :: json
  men :: json
  zone :: json
  inv_items :: json
  inv_count :: number

text \<open>
  \<open>sum(i.get("quantity", 0) for i in inv)\<close>, from the start value: each step is
  \<open>acc + q\<close>. (From CPython 3.12 on, \<open>sum\<close> adds floats with a compensated algorithm,
  which can differ in the last bit of a float total.)
\<close>

fun sum_quantity :: "number \<Rightarrow> json list \<Rightarrow> py_error + number" where
  "sum_quantity acc [] = Inr acc"
| "sum_quantity acc (i # is) =
     and_then (py_get i ''quantity'' (JInt 0)) (\<lambda>q.
       case as_num q of
         None \<Rightarrow> Inl TypeError
       | Some v \<Rightarrow> and_then (num_add acc v) (\<lambda>acc'. sum_quantity acc' is))"

definition read_status :: "json \<Rightarrow> py_error + status" where
  "read_status s =
     and_then (py_get s ''agent'' (JObj [])) (\<lambda>a.
     and_then (py_get a ''hp'' (JInt 0)) (\<lambda>h.
     and_then (py_get a ''maxHp'' (JInt 100)) (\<lambda>mh.
     and_then (py_get a ''energy'' (JInt 0)) (\<lambda>e.
     and_then (py_get a ''maxEnergy'' (JInt 50)) (\<lambda>me.
     and_then (py_get a ''location'' (JStr ''shallows'')) (\<lambda>z.
     and_then (py_get s ''inventory'' (JArr [])) (\<lambda>iv.
     and_then (py_iter iv) (\<lambda>items.
     and_then (sum_quantity (PyInt 0) items) (\<lambda>n.
       Inr \<lparr>agent = a, hp = h, mhp = mh, en = e, men = me, zone = z,
            inv_items = iv, inv_count = n\<rparr>)))))))))"

text \<open>\<open>not a.get("isAlive", True) or hp == 0\<close>\<close>

definition is_dead :: "status \<Rightarrow> py_error + bool" where
  "is_dead st =
     and_then (py_get (agent st) ''isAlive'' (JBool True)) (\<lambda>al.
       Inr (\<not> truthy al \<or> py_eq_num (hp st) (PyInt 0)))"

text \<open>\<open>"IN COMBAT" in s.get("narrative", "")\<close>\<close>

definition in_combat :: "json \<Rightarrow> py_error + bool" where
  "in_combat s = and_then (py_get s ''narrative'' (JStr [])) (py_in ''IN COMBAT'')"

text \<open>
  \<open>hp < mhp * 0.4 or en < 15\<close>: the product is a float, and the right operand of \<open>or\<close> is
  evaluated only if the left is false.
\<close>

definition low_resources :: "status \<Rightarrow> py_error + bool" where
  "low_resources st =
     and_then (py_mul (mhp st) (PyFloat (float_lit 0.4))) (\<lambda>t.
     and_then (py_less (hp st) t) (\<lambda>low_hp.
       if low_hp then Inr True else py_less (en st) (PyInt 15)))"

text \<open>The \<open>for item in inv[:3]\<close> loop.\<close>

fun sell_items :: "json list \<Rightarrow> cmd list \<times> outcome" where
  "sell_items [] = ([], Continue)"
| "sell_items (item # items) =
     eval_then (py_item item ''resource'') (\<lambda>t.
       seq ([Act (body1 ''sell'' t), Pause 6], Continue) (sell_items items))"

definition sell_branch :: "status \<Rightarrow> cmd list \<times> outcome" where
  "sell_branch st =
     seq (if zone st \<noteq> JStr ''trading_post''
          then ([Act (body1 ''move'' (JStr ''trading_post'')), Pause 6], Continue)
          else ([], Continue))
         (eval_then (py_slice (inv_items st) 3) sell_items)"

text \<open>The gather branch: \<open>res\<close> is built from the narrative, and \<open>res[0]\<close> is gathered.\<close>

definition gather_branch :: "json \<Rightarrow> cmd list \<times> outcome" where
  "gather_branch s =
     eval_then (py_get s ''narrative'' (JStr [])) (\<lambda>narr.
     eval_then (py_in ''Seaweed'' narr) (\<lambda>sw.
     eval_then (py_in ''Sand Dollars'' narr) (\<lambda>sd.
       (let res = (if sw then [''seaweed''] else []) @ (if sd then [''sand_dollars''] else [])
        in case res of
             [] \<Rightarrow> ([], Continue)
           | t # _ \<Rightarrow> ([Act (body1 ''gather'' (JStr t)), Pause 6], Continue)))))"

text \<open>\<open>r = random.random()\<close> and the \<open>if r < 0.4 ... elif r < 0.7 ... elif r < 0.85\<close> chain.\<close>

definition random_action :: "json \<Rightarrow> status \<Rightarrow> nat \<Rightarrow> cmd list \<times> outcome" where
  "random_action s st x =
     (let r = py_random x in
      if ext_less r (float_lit 0.4) then gather_branch s
      else if ext_less r (float_lit 0.7) then
        (let other = (if zone st = JStr ''shallows'' then ''trading_post'' else ''shallows'')
         in ([Act (body1 ''move'' (JStr other)), Pause 6], Continue))
      else if ext_less r (float_lit 0.85) then
        ([Act (body1 ''quest'' (JStr ''list'')), Pause 6], Continue)
      else ([Act (body0 ''status''), Pause 6], Continue))"

text \<open>
  Everything an iteration does after \<open>s = act({"action": "look"})\<close>: the commands it
  issues, in order, and whether it reaches the next iteration or raises. The last line is
  \<open>w = random.randint(10, 20)\<close> followed by \<open>time.sleep(w)\<close>.
\<close>

definition after_look :: "json \<Rightarrow> nat \<Rightarrow> nat \<Rightarrow> cmd list \<times> outcome" where
  "after_look s x y =
     seq ([Pause 6], Continue)
      (eval_then (py_get s ''success'' JNull) (\<lambda>ok.
        if \<not> truthy ok then ([Pause 10], Continue)
        else
          eval_then (read_status s) (\<lambda>st.
          eval_then (is_dead st) (\<lambda>dead.
            if dead then ([Act (body0 ''rest''), Pause 65], Continue)
            else
              eval_then (in_combat s) (\<lambda>fight.
                if fight then ([Act (body0 ''flee''), Pause 6], Continue)
                else
                  eval_then (low_resources st) (\<lambda>low.
                    if low then ([Act (body0 ''rest''), Pause 65], Continue)
                    else if num_ge (inv_count st) (PyInt 8) then sell_branch st
                    else
                      seq (random_action s st x)
                        ([Pause (of_int (randint 10 20 y))], Continue)))))))"

subsection \<open>The process: commands executed against the server\<close>

fun exec :: "rat \<Rightarrow> cmd list \<Rightarrow> (nat \<Rightarrow> reply) \<Rightarrow> nat \<Rightarrow> event list \<times> nat" where
  "exec tmax [] env i = ([], i)"
| "exec tmax (Pause t # cs) env i =
     (case exec tmax cs env i of (evs, j) \<Rightarrow> (Sleep t # evs, j))"
| "exec tmax (Act b # cs) env i =
     (case act tmax b env i of
        (d, evs, j) \<Rightarrow> (case exec tmax cs env j of (evs', k) \<Rightarrow> (evs @ evs', k)))"

definition cycle :: "rat \<Rightarrow> (nat \<Rightarrow> reply) \<Rightarrow> nat \<Rightarrow> nat \<Rightarrow> nat \<Rightarrow> event list \<times> outcome \<times> nat" where
  "cycle tmax env x y i =
     (case act tmax (body0 ''look'') env i of
        (s, evs, j) \<Rightarrow>
          (case after_look s x y of
             (cmds, out) \<Rightarrow> (case exec tmax cmds env j of (evs', k) \<Rightarrow> (evs @ evs', out, k))))"


text \<open>The game actions among the commands of an iteration.\<close>

fun acts :: "cmd list \<Rightarrow> json list" where
  "acts [] = []"
| "acts (Act b # cs) = b # acts cs"
| "acts (Pause t # cs) = acts cs"

fun pauses :: "cmd list \<Rightarrow> rat list" where
  "pauses [] = []"
| "pauses (Act b # cs) = pauses cs"
| "pauses (Pause t # cs) = t # pauses cs"

text \<open>The request bodies among the events of the process.\<close>

fun posts :: "event list \<Rightarrow> json list" where
  "posts [] = []"
| "posts (Post b # es) = b # posts es"
| "posts (Sleep t # es) = posts es"

subsection \<open>Sample replies\<close>

text \<open>
  A reply to \<open>look\<close> with the fields the script reads: hp, maxHp, energy, location,
  inventory and narrative of a living agent; and an inventory entry.
\<close>

definition snapshot :: "json \<Rightarrow> json \<Rightarrow> json \<Rightarrow> string \<Rightarrow> json list \<Rightarrow> string \<Rightarrow> json" where
  "snapshot h m e z iv narr =
     JObj [(''success'', JBool True), (''narrative'', JStr narr),
           (''agent'', JObj [(''hp'', h), (''maxHp'', m), (''energy'', e),
                             (''maxEnergy'', JInt 50), (''location'', JStr z),
                             (''isAlive'', JBool True)]),
           (''inventory'', JArr iv)]"

definition entry :: "string \<Rightarrow> int \<Rightarrow> json" where
  "entry res q = JObj [(''resource'', JStr res), (''quantity'', JInt q)]"

definition rate_limited :: "json \<Rightarrow> json" where
  "rate_limited t = JObj [(''error'', JStr ''Rate limit exceeded''), (''retryAfterSec'', t)]"

definition snapshot_status :: "json \<Rightarrow> json \<Rightarrow> json \<Rightarrow> string \<Rightarrow> json list \<Rightarrow> number \<Rightarrow> status" where
  "snapshot_status h m e z iv n =
     \<lparr>agent = JObj [(''hp'', h), (''maxHp'', m), (''energy'', e),
                    (''maxEnergy'', JInt 50), (''location'', JStr z),
                    (''isAlive'', JBool True)],
      hp = h, mhp = m, en = e, men = JInt 50, zone = JStr z,
      inv_items = JArr iv, inv_count = n\<rparr>"

definition full_inventory :: "json list" where
  "full_inventory = [entry ''seaweed'' 3, entry ''shell'' 2, entry ''kelp'' 2, entry ''pearl'' 1]"


section \<open>Rounding to a double\<close>

lemma ilog2_bounds:
  assumes "0 < a"
  shows "2 powi (ilog2 a) \<le> a \<and> a < 2 powi (ilog2 a + 1)"
proof -
  obtain n d where q: "quotient_of a = (n, d)" by (cases "quotient_of a")
  have d: "0 < d" using quotient_of_denom_pos [OF q] .
  have a: "a = of_int n / of_int d" using quotient_of_div [OF q] .
  have n: "0 < n" using assms d by (simp add: a zero_less_divide_iff)
  define k where "k = bitlen n - bitlen d"
  have bn: "1 \<le> bitlen n" and bd: "1 \<le> bitlen d"
    using n d by (simp_all add: bitlen_alt_def)
  have "2 ^ nat (bitlen n - 1) \<le> n" "n < 2 ^ nat (bitlen n)"
    "2 ^ nat (bitlen d - 1) \<le> d" "d < 2 ^ nat (bitlen d)"
    using bitlen_bounds [OF n] bitlen_bounds [OF d] by simp_all
  then have "(of_int (2 ^ nat (bitlen n - 1)) :: rat) \<le> of_int n"
    "(of_int n :: rat) < of_int (2 ^ nat (bitlen n))"
    "(of_int (2 ^ nat (bitlen d - 1)) :: rat) \<le> of_int d"
    "(of_int d :: rat) < of_int (2 ^ nat (bitlen d))"
    by (simp_all only: of_int_le_iff of_int_less_iff)
  then have nb: "(2::rat) powi (bitlen n - 1) \<le> of_int n" "(of_int n :: rat) < 2 powi bitlen n"
    and db: "(2::rat) powi (bitlen d - 1) \<le> of_int d" "(of_int d :: rat) < 2 powi bitlen d"
    using bn bd by (simp_all add: power_int_def)
  have dpos: "(0::rat) < of_int d" using d by simp
  have up: "a < 2 powi (k + 1)"
  proof -
    have "a < 2 powi bitlen n / of_int d"
      unfolding a using nb(2) dpos by (simp add: divide_strict_right_mono)
    also have "\<dots> \<le> 2 powi bitlen n / 2 powi (bitlen d - 1)"
      using db(1) by (simp add: frac_le)
    also have "\<dots> = 2 powi (bitlen n - (bitlen d - 1))"
      by (simp add: power_int_diff)
    also have "bitlen n - (bitlen d - 1) = k + 1"
      by (simp add: k_def)
    finally show ?thesis .
  qed
  have lo: "2 powi (k - 1) \<le> a"
  proof -
    have "(2::rat) powi (k - 1) = 2 powi (bitlen n - 1) / 2 powi bitlen d"
      by (simp add: k_def power_int_diff)
    also have "\<dots> \<le> of_int n / 2 powi bitlen d"
      using nb(1) by (simp add: divide_right_mono)
    also have "\<dots> \<le> of_int n / of_int d"
      using db(2) n dpos by (simp add: frac_le)
    finally show ?thesis by (simp add: a)
  qed
  have il: "ilog2 a = (if 2 powi k \<le> a then k else k - 1)"
    by (simp add: ilog2_def q k_def Let_def)
  show ?thesis
  proof (cases "(2::rat) powi k \<le> a")
    case True
    then show ?thesis using up by (simp add: il)
  next
    case False
    then show ?thesis using lo by (simp add: il)
  qed
qed

lemma ilog2_eqI:
  assumes "2 powi e \<le> a" and "a < 2 powi (e + 1)"
  shows "ilog2 a = e"
proof -
  have pos: "0 < a" using assms(1) by (rule less_le_trans [rotated]) simp
  note b = ilog2_bounds [OF pos]
  have "\<not> ilog2 a < e"
  proof
    assume "ilog2 a < e"
    then have "ilog2 a + 1 \<le> e" by simp
    then have "(2::rat) powi (ilog2 a + 1) \<le> 2 powi e" by (intro power_int_increasing) simp_all
    then show False using b assms(1) by linarith
  qed
  moreover have "\<not> e < ilog2 a"
  proof
    assume "e < ilog2 a"
    then have "e + 1 \<le> ilog2 a" by simp
    then have "(2::rat) powi (e + 1) \<le> 2 powi ilog2 a" by (intro power_int_increasing) simp_all
    then show False using b assms(2) by linarith
  qed
  ultimately show ?thesis by simp
qed

lemma round_even_eqI:
  assumes "\<bar>x - of_int m\<bar> < 1 / 2"
  shows "round_even x = m"
proof -
  from assms have lo: "of_int m - 1 / 2 < x" and hi: "x < of_int m + 1 / 2"
    by linarith+
  have "\<lfloor>x\<rfloor> = m \<or> \<lfloor>x\<rfloor> = m - 1"
  proof (cases "of_int m \<le> x")
    case True
    then have "\<lfloor>x\<rfloor> = m" using hi by (simp add: floor_eq_iff)
    then show ?thesis ..
  next
    case False
    then have "\<lfloor>x\<rfloor> = m - 1" using lo by (simp add: floor_eq_iff)
    then show ?thesis ..
  qed
  then show ?thesis
  proof
    assume f: "\<lfloor>x\<rfloor> = m"
    have "x - of_int m < 1 / 2" using hi by linarith
    then show ?thesis by (simp add: round_even_def f Let_def)
  next
    assume f: "\<lfloor>x\<rfloor> = m - 1"
    define r where "r = x - of_int (m - 1)"
    have r: "1 / 2 < r" "\<not> r < 1 / 2" using lo by (simp_all add: r_def)
    have "round_even x = m - 1 + 1"
      unfolding round_even_def f Let_def using r by (simp flip: r_def del: of_int_diff)
    then show ?thesis by simp
  qed
qed

lemma round_even_of_int [simp]: "round_even (of_int m) = m"
  by (rule round_even_eqI) simp

lemma fround_pos_eqI:
  assumes "2 powi e \<le> a" and "a < 2 powi (e + 1)"
      and "p = max (e - 52) (- 1074)"
      and "\<bar>a / 2 powi p - of_int m\<bar> < 1 / 2"
      and "v = of_int m * 2 powi p" and "v < 2 powi 1024"
  shows "fround a = Fin v"
proof -
  have pos: "0 < a" using assms(1) by (rule less_le_trans [rotated]) simp
  have "ilog2 a = e" using assms(1,2) by (rule ilog2_eqI)
  moreover have "round_even (a / 2 powi p) = m" using assms(4) by (rule round_even_eqI)
  ultimately have "fround_pos a = Fin v"
    using assms(3,5,6) by (simp add: fround_pos_def Let_def)
  then show ?thesis using pos by (simp add: fround_def)
qed

lemma float_lit_04: "float_lit 0.4 = Fin (3602879701896397 / 9007199254740992)"
  unfolding float_lit_def
  by (rule fround_pos_eqI [where e = "- 2" and m = 7205759403792794 and p = "- 54"]) simp_all



lemma pow2_less_cancel:
  assumes "(2::rat) powi a < 2 powi b"
  shows "a < b"
proof (rule ccontr)
  assume "\<not> a < b"
  then have "b \<le> a" by simp
  then have "(2::rat) powi b \<le> 2 powi a" by (intro power_int_increasing) simp_all
  then show False using assms by simp
qed

lemma pow2_le_cancel:
  assumes "(2::rat) powi a \<le> 2 powi b"
  shows "a \<le> b"
proof (rule ccontr)
  assume "\<not> a \<le> b"
  then have "b < a" by simp
  then have "(2::rat) powi b < 2 powi a" by (intro power_int_strict_increasing) simp_all
  then show False using assms by simp
qed

lemma round_even_floor: "\<lfloor>x\<rfloor> \<le> round_even x \<and> round_even x \<le> \<lfloor>x\<rfloor> + 1"
  by (simp add: round_even_def Let_def)

lemma round_even_ge:
  assumes "of_int N \<le> x"
  shows "N \<le> round_even x"
proof -
  have "N \<le> \<lfloor>x\<rfloor>" using assms by (simp add: le_floor_iff)
  then show ?thesis using round_even_floor [of x] by linarith
qed

lemma round_even_le:
  assumes "x \<le> of_int N"
  shows "round_even x \<le> N"
proof (cases "x = of_int N")
  case True
  then show ?thesis by simp
next
  case False
  then have "x < of_int N" using assms by simp
  then have "\<lfloor>x\<rfloor> < N" by (simp add: floor_less_iff)
  then show ?thesis using round_even_floor [of x] by linarith
qed

lemma round_even_gt:
  assumes "of_int N + 1 / 2 < x"
  shows "N + 1 \<le> round_even x"
proof (cases "\<lfloor>x\<rfloor> = N")
  case True
  then have "1 / 2 < x - of_int \<lfloor>x\<rfloor>" using assms by simp
  then have "round_even x = \<lfloor>x\<rfloor> + 1" by (simp add: round_even_def Let_def)
  then show ?thesis using True by simp
next
  case False
  have "N \<le> \<lfloor>x\<rfloor>" using assms by (simp add: le_floor_iff)
  then have "N + 1 \<le> \<lfloor>x\<rfloor>" using False by simp
  then show ?thesis using round_even_floor [of x] by linarith
qed

text \<open>The same on a grid of spacing \<open>q\<close>.\<close>

lemma grid_ge:
  assumes "0 < q" and "of_int N * q \<le> x"
  shows "of_int N * q \<le> of_int (round_even (x / q)) * q"
proof -
  have "of_int N \<le> x / q" using assms by (simp add: pos_le_divide_eq)
  then have "N \<le> round_even (x / q)" by (rule round_even_ge)
  then have "(of_int N :: rat) \<le> of_int (round_even (x / q))" by simp
  then show ?thesis using assms(1) by (simp add: mult_right_mono)
qed

lemma grid_le:
  assumes "0 < q" and "x \<le> of_int N * q"
  shows "of_int (round_even (x / q)) * q \<le> of_int N * q"
proof -
  have "x / q \<le> of_int N" using assms by (simp add: pos_divide_le_eq)
  then have "round_even (x / q) \<le> N" by (rule round_even_le)
  then have "(of_int (round_even (x / q)) :: rat) \<le> of_int N" by simp
  then show ?thesis using assms(1) by (simp add: mult_right_mono)
qed

lemma grid_gt:
  assumes "0 < q" and "of_int N * q + q / 2 < x"
  shows "of_int N * q + q \<le> of_int (round_even (x / q)) * q"
proof -
  have "(of_int N + 1 / 2) * q < x" using assms(2) by (simp add: algebra_simps)
  then have "of_int N + 1 / 2 < x / q" using assms(1) by (simp add: pos_less_divide_eq)
  then have "N + 1 \<le> round_even (x / q)" by (rule round_even_gt)
  then have "(of_int (N + 1) :: rat) \<le> of_int (round_even (x / q))"
    by (simp only: of_int_le_iff)
  then have "of_int (N + 1) * q \<le> of_int (round_even (x / q)) * q"
    using assms(1) by (simp add: mult_right_mono)
  then show ?thesis by (simp add: algebra_simps)
qed

lemma grid_eq:
  assumes "0 < q" and "\<bar>x - of_int N * q\<bar> < q / 2"
  shows "of_int (round_even (x / q)) * q = of_int N * q"
proof -
  have "x / q - of_int N = (x - of_int N * q) / q" using assms(1) by (simp add: field_simps)
  then have "\<bar>x / q - of_int N\<bar> = \<bar>x - of_int N * q\<bar> / q"
    using assms(1) by (simp add: abs_divide)
  also have "\<dots> < 1 / 2" using assms by (simp add: pos_divide_less_eq)
  finally have "round_even (x / q) = N" by (rule round_even_eqI)
  then show ?thesis by simp
qed

text \<open>Rounding a positive rational in the range of the normal doubles.\<close>

lemma fround_normal:
  assumes "2 powi e \<le> a" and "a < 2 powi (e + 1)" and "- 1022 \<le> e" and "e \<le> 1022"
  shows "fround a = Fin (of_int (round_even (a / 2 powi (e - 52))) * 2 powi (e - 52))"
proof -
  have pos: "0 < a" using assms(1) by (rule less_le_trans [rotated]) simp
  have il: "ilog2 a = e" using assms(1,2) by (rule ilog2_eqI)
  have p: "max (e - 52) (- 1074) = e - 52" using assms(3) by simp
  define q :: rat where "q = 2 powi (e - 52)"
  have q: "0 < q" by (simp add: q_def)
  have "of_int (2 ^ 53) * q = 2 powi (e + 1)"
    by (simp add: q_def power_int_diff power_int_add)
  then have "a \<le> of_int (2 ^ 53) * q" using assms(2) by simp
  from grid_le [OF q this]
  have "of_int (round_even (a / q)) * q \<le> 2 powi (e + 1)"
    using \<open>of_int (2 ^ 53) * q = 2 powi (e + 1)\<close> by simp
  also have "\<dots> < 2 powi 1024"
    using assms(4) by (intro power_int_strict_increasing) simp_all
  finally have "\<not> 2 powi 1024 \<le> of_int (round_even (a / q)) * q" by simp
  then have "fround_pos a = Fin (of_int (round_even (a / q)) * q)"
    unfolding fround_pos_def il p Let_def q_def by simp
  then show ?thesis using pos by (simp add: fround_def q_def)
qed

lemma of_int_on_grid:
  assumes "p \<le> 0"
  shows "(of_int n :: rat) = of_int (n * 2 ^ nat (- p)) * 2 powi p"
proof -
  have "(2::rat) powi p = 1 / 2 ^ nat (- p)"
    using assms by (simp add: power_int_def inverse_eq_divide power_one_over)
  then show ?thesis by simp
qed

lemma fround_of_int:
  assumes "0 \<le> i" and "i \<le> 2 ^ 53"
  shows "fround (of_int i) = Fin (of_int i)"
proof (cases "i = 0")
  case True
  then show ?thesis by (simp add: fround_def)
next
  case False
  define a :: rat where "a = of_int i"
  have pos: "0 < a" using assms(1) False by (simp add: a_def)
  define e where "e = ilog2 a"
  have b: "2 powi e \<le> a" "a < 2 powi (e + 1)"
    using ilog2_bounds [OF pos] by (simp_all add: e_def)
  have "1 \<le> a" using assms(1) False by (simp add: a_def)
  then have "(2::rat) powi 0 < 2 powi (e + 1)" using b(2) by simp
  then have "0 < e + 1" by (rule pow2_less_cancel)
  then have e0: "0 \<le> e" by simp
  have "a \<le> 2 powi 53" using assms(2) by (simp add: a_def)
  then have "(2::rat) powi e \<le> 2 powi 53" using b(1) by linarith
  then have e53: "e \<le> 53" by (rule pow2_le_cancel)
  show ?thesis
  proof (cases "e = 53")
    case True
    then have "a = 2 ^ 53" using b(1) \<open>a \<le> 2 powi 53\<close> by simp
    then have "fround a = Fin a"
      by (intro fround_pos_eqI [where e = 53 and p = 1 and m = "2 ^ 52"]) simp_all
    then show ?thesis by (simp add: a_def)
  next
    case False
    then have le: "e - 52 \<le> 0" using e53 by simp
    have g: "a = of_int (i * 2 ^ nat (- (e - 52))) * 2 powi (e - 52)"
      unfolding a_def by (rule of_int_on_grid [OF le])
    have "of_int (round_even (a / 2 powi (e - 52))) * (2::rat) powi (e - 52)
        = of_int (i * 2 ^ nat (- (e - 52))) * 2 powi (e - 52)"
      by (rule grid_eq) (use g in simp_all)
    then have "fround a = Fin a"
      using fround_normal [OF b] e0 e53 g by simp
    then show ?thesis by (simp add: a_def)
  qed
qed

text \<open>
  The product \<open>m * 0.4\<close> for an \<open>int\<close> \<open>m\<close> from 0 to \<open>2\<^sup>5\<^sup>0\<close>: an integer \<open>h\<close> is below the
  rounded product exactly when \<open>5 h < 2 m\<close>.
\<close>

lemma times_04_int:
  assumes "0 \<le> m" and "m \<le> 2 ^ 50"
  shows "\<exists>v. fround (of_int m * (3602879701896397 / 9007199254740992)) = Fin v
           \<and> (\<forall>h::int. (of_int h < v) = (5 * h < 2 * m))"
proof (cases "m = 0")
  case True
  then show ?thesis by (simp add: fround_def)
next
  case False
  define c :: rat where "c = 3602879701896397 / 9007199254740992"
  define a :: rat where "a = of_int m * c"
  define n where "n = (2 * m) div 5"
  define r where "r = (2 * m) mod 5"
  have m: "2 * m = 5 * n + r" "0 \<le> r" "r < 5" by (simp_all add: n_def r_def)
  have m1: "1 \<le> m" using assms(1) False by simp
  have "(of_int 1 :: rat) \<le> of_int m" "(of_int m :: rat) \<le> of_int (2 ^ 50)"
    using m1 assms(2) by (simp_all only: of_int_le_iff)
  then have mr: "(1::rat) \<le> of_int m" "(of_int m :: rat) \<le> 2 ^ 50"
    by simp_all
  have n0: "0 \<le> n" using assms(1) by (simp add: n_def)
  have a_eq: "a = (of_int (5 * n + r) + of_int m / 2 ^ 53) / 5"
    unfolding a_def c_def m(1) [symmetric] by simp
  have a_eq': "a = of_int n + of_int r / 5 + of_int m / (5 * 2 ^ 53)"
    unfolding a_eq by (simp add: field_simps)
  have pos: "0 < a" using mr by (simp add: a_def c_def)
  define e where "e = ilog2 a"
  have b: "2 powi e \<le> a" "a < 2 powi (e + 1)"
    using ilog2_bounds [OF pos] by (simp_all add: e_def)
  have "(2::rat) powi (- 2) < a" using mr by (simp add: a_def c_def)
  then have "(2::rat) powi (- 2) < 2 powi (e + 1)" using b(2) by linarith
  then have "- 2 < e + 1" by (rule pow2_less_cancel)
  then have elo: "- 3 \<le> e" by simp
  have "a < 2 powi 49" using mr by (simp add: a_def c_def)
  then have "(2::rat) powi e < 2 powi 49" using b(1) by linarith
  then have ehi: "e < 49" by (rule pow2_less_cancel)
  define q :: rat where "q = 2 powi (e - 52)"
  have q: "0 < q" by (simp add: q_def)
  have "q \<le> 2 powi (- 4)"
    unfolding q_def using ehi by (intro power_int_increasing) simp_all
  then have q16: "q \<le> 1 / 16" by simp
  define v where "v = of_int (round_even (a / q)) * q"
  have fr: "fround a = Fin v"
    unfolding v_def q_def using elo ehi by (intro fround_normal [OF b]) simp_all
  have le: "e - 52 \<le> 0" using ehi by simp
  define N where "N = n * 2 ^ nat (- (e - 52))"
  define N1 where "N1 = (n + 1) * 2 ^ nat (- (e - 52))"
  have gN: "of_int n = of_int N * q" and gN1: "of_int (n + 1) = of_int N1 * q"
    unfolding N_def N1_def q_def by (rule of_int_on_grid [OF le])+
  have "r \<le> 4" using m(3) by simp
  then have "(of_int r :: rat) \<le> of_int 4" by (simp only: of_int_le_iff)
  then have nr: "(0::rat) \<le> of_int n" "(0::rat) \<le> of_int r" "(of_int r :: rat) \<le> 4"
    using n0 m(2) by simp_all
  have n_le: "(of_int n :: rat) \<le> a" unfolding a_eq' using nr mr by simp
  have "5 * n \<le> 2 * m" using m by simp
  then have "(of_int (5 * n) :: rat) \<le> of_int (2 * m)" by (simp only: of_int_le_iff)
  then have n51: "(of_int n :: rat) \<le> 2 ^ 51 / 5" using mr by simp
  have key: "\<forall>h::int. (of_int h < v) = (5 * h < 2 * m)"
  proof (cases "r = 0")
    case True
    have "a - of_int n = of_int m / (5 * 2 ^ 53)" by (simp add: a_eq' True)
    also have "of_int m = (5 * of_int n :: rat) / 2"
    proof -
      have "2 * m = 5 * n" using m(1) True by simp
      then have "(of_int (2 * m) :: rat) = of_int (5 * n)" by (simp only:)
      then show ?thesis by simp
    qed
    finally have d: "a - of_int n = of_int n / 2 ^ 54" by simp
    have "of_int n < (2::rat) powi (e + 1)" using n_le b(2) by simp
    also have "\<dots> = q * 2 ^ 53" by (simp add: q_def power_int_diff power_int_add)
    finally have "of_int n / 2 ^ 54 < q / 2" by (simp add: field_simps)
    then have "\<bar>a - of_int N * q\<bar> < q / 2"
      using d nr(1) by (simp flip: gN)
    from grid_eq [OF q this] have "v = of_int n" by (simp add: v_def gN)
    moreover have "(h < n) = (5 * h < 2 * m)" for h using m(1) True by auto
    ultimately show ?thesis by simp
  next
    case False
    then have r1: "1 \<le> r" using m(2) by simp
    then have "(of_int 1 :: rat) \<le> of_int r" by (simp only: of_int_le_iff)
    then have rr: "(1::rat) \<le> of_int r" by simp
    have "of_int n + 1 / 5 \<le> a" unfolding a_eq' using rr mr by simp
    then have "of_int N * q + q / 2 < a" using q16 by (simp flip: gN)
    from grid_gt [OF q this] have "of_int n + q \<le> v" by (simp add: v_def gN)
    then have lo: "of_int n < v" using q by simp
    have "of_int m / (5 * 2 ^ 53) \<le> (1 / 5 :: rat)" using mr by simp
    then have "a \<le> of_int (n + 1)" unfolding a_eq' using nr by simp
    then have "a \<le> of_int N1 * q" by (simp only: gN1)
    from grid_le [OF q this] have hi: "v \<le> of_int n + 1" by (simp add: v_def flip: gN1)
    have "(of_int h < v) = (h \<le> n)" for h :: int
    proof
      assume "of_int h < v"
      then have "(of_int h :: rat) < of_int (n + 1)" using hi by simp
      then have "h < n + 1" by (simp only: of_int_less_iff)
      then show "h \<le> n" by simp
    next
      assume "h \<le> n"
      then have "(of_int h :: rat) \<le> of_int n" by simp
      then show "of_int h < v" using lo by simp
    qed
    moreover have "(h \<le> n) = (5 * h < 2 * m)" for h using m r1 by auto
    ultimately show ?thesis by simp
  qed
  show ?thesis using fr key by (simp add: a_def c_def)
qed

section \<open>Properties of \<open>act\<close>\<close>

lemma posts_append: "posts (xs @ ys) = posts xs @ posts ys"
  by (induction xs rule: posts.induct) simp_all

lemma attempt_Returned: "attempt tmax body rep = Returned d \<Longrightarrow> rep = Json d"
  unfolding attempt_def
  by (cases rep; simp split: sum.splits bool.splits if_splits)

lemma act_loop_Suc:
  "act_loop (Suc n) tmax body env i =
     (case attempt tmax body (env i) of
        Returned d \<Rightarrow> (d, [Post body], Suc i)
      | RateLimited t \<Rightarrow>
          (fst (act_loop n tmax body env (Suc i)), Post body # Sleep t # fst (snd (act_loop n tmax body env (Suc i))),
           snd (snd (act_loop n tmax body env (Suc i))))
      | Failed e \<Rightarrow>
          (fst (act_loop n tmax body env (Suc i)), Post body # Sleep 5 # fst (snd (act_loop n tmax body env (Suc i))),
           snd (snd (act_loop n tmax body env (Suc i)))))"
  by (simp split: attempt.split prod.split)

lemma act_loop_posts:
  "posts (fst (snd (act_loop n tmax body env i))) = replicate (snd (snd (act_loop n tmax body env i)) - i) body
   \<and> i \<le> snd (snd (act_loop n tmax body env i)) \<and> snd (snd (act_loop n tmax body env i)) \<le> i + n"
proof (induction n arbitrary: i)
  case 0
  show ?case by simp
next
  case (Suc n)
  define j where "j = snd (snd (act_loop n tmax body env (Suc i)))"
  have ih: "posts (fst (snd (act_loop n tmax body env (Suc i)))) = replicate (j - Suc i) body"
    "Suc i \<le> j" "j \<le> Suc i + n"
    using Suc.IH [of "Suc i"] by (simp_all add: j_def)
  have rep: "replicate (j - i) body = body # replicate (j - Suc i) body"
    using ih(2) by (simp add: Suc_diff_le flip: replicate_Suc)
  show ?case
    unfolding act_loop_Suc using ih rep
    by (cases "attempt tmax body (env i)") (simp_all flip: j_def)
qed

lemma act_loop_result:
  "fst (act_loop n tmax body env i) = failure
   \<or> (\<exists>k<n. env (i + k) = Json (fst (act_loop n tmax body env i)))"
proof (induction n arbitrary: i)
  case 0
  show ?case by simp
next
  case (Suc n)
  define d' where "d' = fst (act_loop n tmax body env (Suc i))"
  have ih: "d' = failure \<or> (\<exists>k<n. env (Suc i + k) = Json d')"
    using Suc.IH [of "Suc i"] by (simp add: d'_def)
  have later: "d' = failure \<or> (\<exists>k<Suc n. env (i + k) = Json d')"
  proof (rule disjE [OF ih])
    assume "d' = failure" then show ?thesis by simp
  next
    assume "\<exists>k<n. env (Suc i + k) = Json d'"
    then obtain k where "k < n" "env (Suc i + k) = Json d'" by blast
    then have "Suc k < Suc n" "env (i + Suc k) = Json d'" by simp_all
    then show ?thesis by blast
  qed
  show ?case
  proof (cases "attempt tmax body (env i)")
    case (Returned d)
    then have "env (i + 0) = Json d" using attempt_Returned by simp
    then have "\<exists>k<Suc n. env (i + k) = Json d" by blast
    then show ?thesis unfolding act_loop_Suc using Returned by simp
  next
    case (RateLimited t)
    then show ?thesis unfolding act_loop_Suc using later by (simp flip: d'_def)
  next
    case (Failed e)
    then show ?thesis unfolding act_loop_Suc using later by (simp flip: d'_def)
  qed
qed

lemma act_loop_exhausted:
  "(\<forall>k<n. (\<exists>t. attempt tmax body (env (i + k)) = RateLimited t)
          \<or> (\<exists>e. attempt tmax body (env (i + k)) = Failed e))
   \<Longrightarrow> fst (act_loop n tmax body env i) = failure \<and> snd (snd (act_loop n tmax body env i)) = i + n"
proof (induction n arbitrary: i)
  case 0
  show ?case by simp
next
  case (Suc n)
  have "\<forall>k<n. (\<exists>t. attempt tmax body (env (Suc i + k)) = RateLimited t)
             \<or> (\<exists>e. attempt tmax body (env (Suc i + k)) = Failed e)"
  proof (intro allI impI)
    fix k assume "k < n"
    then have "Suc k < Suc n" by simp
    from Suc.prems [rule_format, OF this]
    show "(\<exists>t. attempt tmax body (env (Suc i + k)) = RateLimited t)
        \<or> (\<exists>e. attempt tmax body (env (Suc i + k)) = Failed e)"
      by simp
  qed
  from Suc.IH [OF this]
  have ih: "fst (act_loop n tmax body env (Suc i)) = failure"
    "snd (snd (act_loop n tmax body env (Suc i))) = Suc i + n"
    by simp_all
  from Suc.prems [rule_format, of 0]
  have "(\<exists>t. attempt tmax body (env i) = RateLimited t) \<or> (\<exists>e. attempt tmax body (env i) = Failed e)"
    by simp
  then show ?case unfolding act_loop_Suc using ih by auto
qed

lemma act_result:
  "fst (act tmax body env i) = failure \<or> (\<exists>k<3. env (i + k) = Json (fst (act tmax body env i)))"
  unfolding act_def by (rule act_loop_result)

lemma act_posts:
  "posts (fst (snd (act tmax body env i))) = replicate (snd (snd (act tmax body env i)) - i) body"
  and act_next: "snd (snd (act tmax body env i)) \<le> i + 3"
  unfolding act_def using act_loop_posts [of 3 tmax body env i] by blast+

lemma act_posts_le: "length (posts (fst (snd (act tmax body env i)))) \<le> 3"
  using act_posts [of tmax body env i] act_next [of tmax body env i] by simp

lemma act_exhausted:
  assumes "\<forall>k<3. (\<exists>t. attempt tmax body (env (i + k)) = RateLimited t)
               \<or> (\<exists>e. attempt tmax body (env (i + k)) = Failed e)"
  shows "fst (act tmax body env i) = failure \<and> posts (fst (snd (act tmax body env i))) = [body, body, body]"
proof -
  from act_loop_exhausted [OF assms]
  have "fst (act tmax body env i) = failure" "snd (snd (act tmax body env i)) = i + 3"
    unfolding act_def by blast+
  then show ?thesis using act_posts [of tmax body env i] by (simp add: numeral_3_eq_3)
qed

lemma set_posts_act: "set (posts (fst (snd (act tmax body env i)))) \<subseteq> {body}"
  using act_posts [of tmax body env i] by (simp add: set_replicate_conv_if)

lemma act_loop_next_gt: "i < snd (snd (act_loop (Suc n) tmax body env i))"
proof -
  define j where "j = snd (snd (act_loop n tmax body env (Suc i)))"
  have "Suc i \<le> j"
    using act_loop_posts [of n tmax body env "Suc i"] by (simp add: j_def)
  then show ?thesis
    unfolding act_loop_Suc
    by (cases "attempt tmax body (env i)") (simp_all flip: j_def)
qed

lemma act_next_gt: "i < snd (snd (act tmax body env i))"
  unfolding act_def numeral_3_eq_3 by (rule act_loop_next_gt)

lemma attempt_rate_limited:
  assumes "py_get d ''error'' (JStr []) = Inr err" and "py_in ''Rate limit'' err = Inr True"
      and "py_get d ''retryAfterSec'' (JInt 3) = Inr x" and "py_add x (PyInt 1) = Inr v"
      and "time_sleep tmax v = Inr t"
  shows "attempt tmax body (Json d) = RateLimited t"
  using assms by (simp add: attempt_def and_then_def)

text \<open>What \<open>time.sleep\<close> does with an \<open>int\<close>.\<close>

lemma time_sleep_int:
  "time_sleep tmax (PyInt k) =
     (if k < - 9223372036 \<or> 9223372036 < k then Inl OverflowError
      else if k < 0 then Inl ValueError
      else if tmax < of_int k then Inl OSError
      else Inr (of_int k))"
  by (auto simp: time_sleep_def fits_ns_def)

section \<open>Properties of the loop body\<close>

subsection \<open>The branches, one by one\<close>

lemma after_look_failed:
  assumes "py_get s ''success'' JNull = Inr ok" and "\<not> truthy ok"
  shows "after_look s x y = ([Pause 6, Pause 10], Continue)"
  using assms by (simp add: after_look_def seq_def eval_then_def)

lemma after_look_resting:
  assumes "py_get s ''success'' JNull = Inr ok" and "truthy ok"
      and "read_status s = Inr st" and "is_dead st = Inr False"
      and "in_combat s = Inr False" and "low_resources st = Inr True"
  shows "after_look s x y = ([Pause 6, Act (body0 ''rest''), Pause 65], Continue)"
  using assms by (simp add: after_look_def seq_def eval_then_def)

lemma after_look_sell:
  assumes "py_get s ''success'' JNull = Inr ok" and "truthy ok"
      and "read_status s = Inr st" and "is_dead st = Inr False"
      and "in_combat s = Inr False" and "low_resources st = Inr False"
      and "num_ge (inv_count st) (PyInt 8)"
  shows "after_look s x y = seq ([Pause 6], Continue) (sell_branch st)"
  using assms by (simp add: after_look_def eval_then_def)

lemma after_look_random:
  assumes "py_get s ''success'' JNull = Inr ok" and "truthy ok"
      and "read_status s = Inr st" and "is_dead st = Inr False"
      and "in_combat s = Inr False" and "low_resources st = Inr False"
      and "\<not> num_ge (inv_count st) (PyInt 8)"
  shows "after_look s x y
     = seq ([Pause 6], Continue) (seq (random_action s st x) ([Pause (of_int (randint 10 20 y))], Continue))"
  using assms by (simp add: after_look_def eval_then_def)

lemma low_resources_num:
  assumes "as_num (hp st) = Some h" and "as_num (mhp st) = Some m" and "as_num (en st) = Some e"
      and "to_float m = Inr mf"
  shows "low_resources st
     = Inr (num_less h (PyFloat (fmul mf (float_lit 0.4))) \<or> num_less e (PyInt 15))"
proof -
  have "num_mul m (PyFloat (float_lit 0.4)) = Inr (PyFloat (fmul mf (float_lit 0.4)))"
    using assms(4) by (cases m) (simp_all add: num_mul_def to_float_def and_then_def)
  then show ?thesis
    using assms(1-3) by (simp add: low_resources_def py_mul_def py_less_def and_then_def)
qed

text \<open>
  Every iteration ends in one of six ways: an exception while the snapshot is read, a failed
  \<open>look\<close>, a rest, a flee, the sell branch, or the random branch.
\<close>

lemma after_look_cases:
  "(\<exists>e. after_look s x y = ([Pause 6], Raised e))
   \<or> after_look s x y = ([Pause 6, Pause 10], Continue)
   \<or> after_look s x y = ([Pause 6, Act (body0 ''rest''), Pause 65], Continue)
   \<or> after_look s x y = ([Pause 6, Act (body0 ''flee''), Pause 6], Continue)
   \<or> (\<exists>st. read_status s = Inr st \<and> num_ge (inv_count st) (PyInt 8)
          \<and> after_look s x y = seq ([Pause 6], Continue) (sell_branch st))
   \<or> (\<exists>st. read_status s = Inr st \<and> \<not> num_ge (inv_count st) (PyInt 8) \<and> in_combat s = Inr False
          \<and> after_look s x y
              = seq ([Pause 6], Continue)
                  (seq (random_action s st x) ([Pause (of_int (randint 10 20 y))], Continue)))"
proof (cases "py_get s ''success'' JNull")
  case (Inl e)
  then show ?thesis by (simp add: after_look_def seq_def eval_then_def)
next
  case ok: (Inr ok)
  show ?thesis
  proof (cases "truthy ok")
    case False
    then show ?thesis using ok by (simp add: after_look_failed)
  next
    case t: True
    show ?thesis
    proof (cases "read_status s")
      case (Inl e)
      then show ?thesis using ok t by (simp add: after_look_def seq_def eval_then_def)
    next
      case st: (Inr st)
      show ?thesis
      proof (cases "is_dead st")
        case (Inl e)
        then show ?thesis using ok t st by (simp add: after_look_def seq_def eval_then_def)
      next
        case dead: (Inr dead)
        show ?thesis
        proof (cases dead)
          case True
          then show ?thesis
            using ok t st dead by (simp add: after_look_def seq_def eval_then_def)
        next
          case False
          with dead have alive: "is_dead st = Inr False" by simp
          show ?thesis
          proof (cases "in_combat s")
            case (Inl e)
            then show ?thesis
              using ok t st alive by (simp add: after_look_def seq_def eval_then_def)
          next
            case fight: (Inr fight)
            show ?thesis
            proof (cases fight)
              case True
              then show ?thesis
                using ok t st alive fight by (simp add: after_look_def seq_def eval_then_def)
            next
              case False
              with fight have calm: "in_combat s = Inr False" by simp
              show ?thesis
              proof (cases "low_resources st")
                case (Inl e)
                then show ?thesis
                  using ok t st alive calm by (simp add: after_look_def seq_def eval_then_def)
              next
                case low: (Inr low)
                show ?thesis
                proof (cases low)
                  case True
                  then show ?thesis
                    using after_look_resting [OF ok t st alive calm] low by simp
                next
                  case False
                  with low have fit: "low_resources st = Inr False" by simp
                  show ?thesis
                  proof (cases "num_ge (inv_count st) (PyInt 8)")
                    case True
                    then show ?thesis
                      using after_look_sell [OF ok t st alive calm fit True] st by blast
                  next
                    case lt: False
                    then show ?thesis
                      using after_look_random [OF ok t st alive calm fit lt] st calm by blast
                  qed
                qed
              qed
            qed
          qed
        qed
      qed
    qed
  qed
qed

subsection \<open>Commands of the sell and random branches\<close>




lemma Pause_in_set: "Pause t \<in> set cs \<longleftrightarrow> t \<in> set (pauses cs)"
  by (induction cs rule: pauses.induct) auto

lemma acts_sells: "acts (concat (map (\<lambda>t. [Act (body1 ''sell'' t), Pause 6]) ts)) = map (body1 ''sell'') ts"
  by (induction ts) simp_all

lemma py_slice_length: "py_slice x n = Inr xs \<Longrightarrow> length xs \<le> n"
  by (cases x) (auto simp: py_slice_def)

lemma rest_not_body1: "body0 ''rest'' \<noteq> body1 a t"
  by (simp add: body0_def body1_def)



lemma sell_items_shape:
  "\<exists>ts. length ts \<le> length xs
      \<and> (\<forall>k<length ts. py_item (xs ! k) ''resource'' = Inr (ts ! k))
      \<and> fst (sell_items xs) = concat (map (\<lambda>t. [Act (body1 ''sell'' t), Pause 6]) ts)
      \<and> (length ts = length xs \<and> snd (sell_items xs) = Continue
         \<or> length ts < length xs
           \<and> (\<exists>e. py_item (xs ! length ts) ''resource'' = Inl e
                 \<and> snd (sell_items xs) = Raised e))"
proof (induction xs)
  case Nil
  show ?case by simp
next
  case (Cons x xs)
  show ?case
  proof (cases "py_item x ''resource''")
    case (Inl e)
    then have "sell_items (x # xs) = ([], Raised e)" by (simp add: eval_then_def)
    then show ?thesis using Inl by (intro exI [of _ "[]"]) simp
  next
    case (Inr t)
    from Cons.IH obtain ts where ts: "length ts \<le> length xs"
      "\<forall>k<length ts. py_item (xs ! k) ''resource'' = Inr (ts ! k)"
      "fst (sell_items xs) = concat (map (\<lambda>t. [Act (body1 ''sell'' t), Pause 6]) ts)"
      "length ts = length xs \<and> snd (sell_items xs) = Continue
         \<or> length ts < length xs
           \<and> (\<exists>e. py_item (xs ! length ts) ''resource'' = Inl e
                 \<and> snd (sell_items xs) = Raised e)"
      by blast
    have eq: "sell_items (x # xs)
        = (Act (body1 ''sell'' t) # Pause 6 # fst (sell_items xs), snd (sell_items xs))"
      using Inr by (simp add: eval_then_def seq_def)
    have nth: "\<forall>k<length (t # ts). py_item ((x # xs) ! k) ''resource'' = Inr ((t # ts) ! k)"
      using ts(2) Inr by (auto simp: nth_Cons split: nat.splits)
    show ?thesis
      using ts(1,3,4) nth by (intro exI [of _ "t # ts"]) (simp add: eq del: sell_items.simps)
  qed
qed



lemma sell_branch_shape:
  "\<exists>ts. length ts \<le> 3
      \<and> acts (fst (sell_branch st))
          = (if zone st \<noteq> JStr ''trading_post'' then [body1 ''move'' (JStr ''trading_post'')]
             else [])
            @ map (body1 ''sell'') ts"
proof (cases "py_slice (inv_items st) 3")
  case (Inl e)
  then show ?thesis
    by (intro exI [of _ "[]"]) (simp add: sell_branch_def seq_def eval_then_def)
next
  case (Inr xs)
  from sell_items_shape [of xs] obtain ts where ts: "length ts \<le> length xs"
    "fst (sell_items xs) = concat (map (\<lambda>t. [Act (body1 ''sell'' t), Pause 6]) ts)"
    by blast
  have "length ts \<le> 3" using ts(1) py_slice_length [OF Inr] by simp
  then show ?thesis
    using Inr ts(2)
    by (intro exI [of _ ts]) (simp add: sell_branch_def seq_def eval_then_def acts_sells)
qed



lemma gather_branch_cases:
  "(\<exists>e. gather_branch s = ([], Raised e))
   \<or> gather_branch s = ([], Continue)
   \<or> gather_branch s = ([Act (body1 ''gather'' (JStr ''seaweed'')), Pause 6], Continue)
   \<or> gather_branch s = ([Act (body1 ''gather'' (JStr ''sand_dollars'')), Pause 6], Continue)"
  by (simp add: gather_branch_def eval_then_def split: sum.split)


lemma random_action_cases:
  "(\<exists>e. random_action s st x = ([], Raised e))
   \<or> random_action s st x = ([], Continue)
   \<or> (\<exists>a. a \<noteq> body0 ''rest'' \<and> random_action s st x = ([Act a, Pause 6], Continue))"
proof (cases "ext_less (py_random x) (float_lit 0.4)")
  case True
  then have "random_action s st x = gather_branch s" by (simp add: random_action_def)
  then show ?thesis using gather_branch_cases [of s] rest_not_body1 by metis
next
  case False
  have "body0 ''rest'' \<noteq> body0 ''status''" by (simp add: body0_def)
  then show ?thesis using False rest_not_body1
    by (simp add: random_action_def Let_def) metis
qed


subsection \<open>From commands to requests\<close>

text \<open>
  Each \<open>Act b\<close> of an iteration is one call of \<open>act\<close>, which sends \<open>b\<close> one to three
  times; the requests of an iteration are those of its \<open>look\<close> followed by those of its
  actions, in order.
\<close>

lemma exec_Pause: "fst (exec tmax (Pause t # cs) env i) = Sleep t # fst (exec tmax cs env i)"
  by (simp split: prod.split)

lemma exec_Act:
  "fst (exec tmax (Act b # cs) env i)
     = fst (snd (act tmax b env i)) @ fst (exec tmax cs env (snd (snd (act tmax b env i))))"
  by (simp split: prod.split)

lemma exec_posts:
  "\<exists>ks. length ks = length (acts cmds) \<and> (\<forall>k\<in>set ks. 1 \<le> k \<and> k \<le> 3)
      \<and> posts (fst (exec tmax cmds env j)) = concat (map2 replicate ks (acts cmds))"
proof (induction cmds arbitrary: j rule: acts.induct)
  case 1
  show ?case by simp
next
  case (2 b cs)
  define j' where "j' = snd (snd (act tmax b env j))"
  from 2 [of j'] obtain ks where ks: "length ks = length (acts cs)"
    "\<forall>k\<in>set ks. 1 \<le> k \<and> k \<le> 3"
    "posts (fst (exec tmax cs env j')) = concat (map2 replicate ks (acts cs))"
    by blast
  have k: "1 \<le> j' - j" "j' - j \<le> 3"
    using act_next_gt [of j tmax b env] act_next [of tmax b env j] by (simp_all add: j'_def)
  have "posts (fst (exec tmax (Act b # cs) env j))
      = replicate (j' - j) b @ posts (fst (exec tmax cs env j'))"
    using act_posts [of tmax b env j] by (simp add: exec_Act posts_append j'_def del: exec.simps)
  then show ?case
    using ks k by (intro exI [of _ "(j' - j) # ks"]) simp
next
  case (3 t cs)
  from 3 [of j] show ?case by (simp add: exec_Pause del: exec.simps)
qed

lemma cycle_posts:
  assumes "act tmax (body0 ''look'') env i = (s, evs, j)"
  shows "\<exists>n ks. 1 \<le> n \<and> n \<le> 3 \<and> length ks = length (acts (fst (after_look s x y)))
      \<and> (\<forall>k\<in>set ks. 1 \<le> k \<and> k \<le> 3)
      \<and> posts (fst (cycle tmax env x y i))
          = replicate n (body0 ''look'')
            @ concat (map2 replicate ks (acts (fst (after_look s x y))))"
proof -
  from exec_posts [of "fst (after_look s x y)" tmax env j]
  obtain ks where ks: "length ks = length (acts (fst (after_look s x y)))"
    "\<forall>k\<in>set ks. 1 \<le> k \<and> k \<le> 3"
    "posts (fst (exec tmax (fst (after_look s x y)) env j))
       = concat (map2 replicate ks (acts (fst (after_look s x y))))"
    by blast
  have n: "1 \<le> j - i" "j - i \<le> 3" "posts evs = replicate (j - i) (body0 ''look'')"
    using act_next_gt [of i tmax "body0 ''look''" env] act_next [of tmax "body0 ''look''" env i]
      act_posts [of tmax "body0 ''look''" env i] assms by simp_all
  have "posts (fst (cycle tmax env x y i))
      = posts evs @ posts (fst (exec tmax (fst (after_look s x y)) env j))"
    by (simp add: cycle_def assms posts_append split: prod.split)
  then show ?thesis using ks n by (intro exI [of _ "j - i"] exI [of _ ks]) simp
qed

subsection \<open>Integer statistics\<close>

text \<open>
  For an \<open>int\<close> \<open>maxHp\<close> from 0 to \<open>2\<^sup>5\<^sup>0\<close> and an \<open>int\<close> \<open>hp\<close>, the float comparison
  \<open>hp < mhp * 0.4\<close> decides \<open>5 hp < 2 maxHp\<close>.
\<close>

lemma low_resources_int:
  assumes "hp st = JInt h" and "mhp st = JInt m" and "as_num (en st) = Some e"
      and "0 \<le> m" and "m \<le> 2 ^ 50"
  shows "low_resources st = Inr (5 * h < 2 * m \<or> num_less e (PyInt 15))"
proof -
  have "m \<le> 2 ^ 53" using assms(5) by simp
  from fround_of_int [OF assms(4) this]
  have tf: "to_float (PyInt m) = Inr (Fin (of_int m))" by (simp add: to_float_def)
  from times_04_int [OF assms(4,5)] obtain v
    where v: "fround (of_int m * (3602879701896397 / 9007199254740992)) = Fin v"
      "\<forall>h::int. (of_int h < v) = (5 * h < 2 * m)"
    by blast
  have "fmul (Fin (of_int m)) (float_lit 0.4) = Fin v"
    by (simp only: float_lit_04 fmul.simps v(1))
  then have "num_less (PyInt h) (PyFloat (fmul (Fin (of_int m)) (float_lit 0.4)))
      = (5 * h < 2 * m)"
    using v(2) by (simp add: num_less_def)
  moreover have "low_resources st
      = Inr (num_less (PyInt h) (PyFloat (fmul (Fin (of_int m)) (float_lit 0.4)))
             \<or> num_less e (PyInt 15))"
    by (rule low_resources_num [OF _ _ assms(3) tf]) (simp_all add: assms(1,2))
  ultimately show ?thesis by simp
qed

subsection \<open>The sample replies\<close>

lemma snapshot_success: "py_get (snapshot h m e z iv narr) ''success'' JNull = Inr (JBool True)"
  by (simp add: snapshot_def py_get_def)

lemma snapshot_narrative:
  "py_get (snapshot h m e z iv narr) ''narrative'' (JStr []) = Inr (JStr narr)"
  by (simp add: snapshot_def py_get_def)

lemma read_snapshot:
  assumes "sum_quantity (PyInt 0) iv = Inr n"
  shows "read_status (snapshot h m e z iv narr) = Inr (snapshot_status h m e z iv n)"
  using assms
  by (simp add: snapshot_def snapshot_status_def read_status_def py_get_def and_then_def
      py_iter_def)

lemma snapshot_alive: "k \<noteq> 0 \<Longrightarrow> is_dead (snapshot_status (JInt k) m e z iv n) = Inr False"
  by (simp add: snapshot_status_def is_dead_def py_get_def and_then_def py_eq_num_def
      num_eq_def)

lemma snapshot_combat:
  "in_combat (snapshot h m e z iv narr) = Inr (sublist ''IN COMBAT'' narr)"
  by (simp add: in_combat_def snapshot_narrative and_then_def py_in_def)

lemma snapshot_low:
  assumes "0 \<le> m" and "m \<le> 2 ^ 50"
  shows "low_resources (snapshot_status (JInt h) (JInt m) (JInt e) z iv n)
     = Inr (5 * h < 2 * m \<or> e < 15)"
  using low_resources_int [OF _ _ _ assms, of "snapshot_status (JInt h) (JInt m) (JInt e) z iv n"
      h "PyInt e"]
  by (simp add: snapshot_status_def num_less_def)


lemma sum_full: "sum_quantity (PyInt 0) full_inventory = Inr (PyInt 8)"
  by (simp add: full_inventory_def entry_def py_get_def and_then_def num_add_def)

lemma num_ge_int: "num_ge (PyInt a) (PyInt b) = (b \<le> a)"
  by (auto simp: num_ge_def ext_le_def)

lemma full_inventory_acts:
  "acts (fst (after_look
       (snapshot (JInt 50) (JInt 100) (JInt 40) ''shallows'' full_inventory ''calm water'') x y))
     = [body1 ''move'' (JStr ''trading_post''), body1 ''sell'' (JStr ''seaweed''),
        body1 ''sell'' (JStr ''shell''), body1 ''sell'' (JStr ''kelp'')]"
proof -
  let ?s = "snapshot (JInt 50) (JInt 100) (JInt 40) ''shallows'' full_inventory ''calm water''"
  let ?st = "snapshot_status (JInt 50) (JInt 100) (JInt 40) ''shallows'' full_inventory (PyInt 8)"
  have 1: "py_get ?s ''success'' JNull = Inr (JBool True)" by (rule snapshot_success)
  have 2: "truthy (JBool True)" by simp
  have 3: "read_status ?s = Inr ?st" by (rule read_snapshot [OF sum_full])
  have 4: "is_dead ?st = Inr False" by (simp add: snapshot_alive)
  have 5: "in_combat ?s = Inr False" by (simp add: snapshot_combat sublist_code)
  have 6: "low_resources ?st = Inr False" by (simp add: snapshot_low)
  have 7: "num_ge (inv_count ?st) (PyInt 8)" by (simp add: snapshot_status_def num_ge_int)
  have "after_look ?s x y = seq ([Pause 6], Continue) (sell_branch ?st)"
    by (rule after_look_sell [OF 1 2 3 4 5 6 7])
  then show ?thesis
    by (simp add: seq_def sell_branch_def snapshot_status_def full_inventory_def entry_def
        py_slice_def eval_then_def py_item_def)
qed

subsection \<open>The random draws\<close>







subsection \<open>The product \<open>mhp * 0.4\<close>\<close>




section \<open>The claims\<close>

subsection \<open>C1: actions per iteration\<close>

text \<open>
  Claim C1 says that an iteration issues at most one game action after the status query.
  The sell branch breaks it: with a full inventory away from the trading post, one iteration
  issues a move and three sells.
\<close>

theorem one_action_per_cycle_counterexample:
  "acts (fst (after_look
       (snapshot (JInt 50) (JInt 100) (JInt 40) ''shallows'' full_inventory ''calm water'') 0 0))
     = [body1 ''move'' (JStr ''trading_post''), body1 ''sell'' (JStr ''seaweed''),
        body1 ''sell'' (JStr ''shell''), body1 ''sell'' (JStr ''kelp'')]
   \<and> \<not> length (acts (fst (after_look
           (snapshot (JInt 50) (JInt 100) (JInt 40) ''shallows'' full_inventory ''calm water'')
           0 0))) \<le> 1"
  by (simp add: full_inventory_acts)

text \<open>
  Claim C1, amended. For any status snapshot and any draws, an iteration issues at most one
  game action after \<open>look\<close>, unless the inventory count is at least 8 and the sell branch
  runs: then the actions are at most one move to \<open>trading_post\<close> followed by at most
  three sells. An action is one call of \<open>act\<close>, which sends its body one to three times
  (\<open>cycle_posts\<close>).
\<close>

theorem one_action_unless_selling:
  "length (acts (fst (after_look s x y))) \<le> 1
   \<or> (\<exists>st ts. read_status s = Inr st \<and> num_ge (inv_count st) (PyInt 8) \<and> length ts \<le> 3
        \<and> acts (fst (after_look s x y))
            = (if zone st \<noteq> JStr ''trading_post''
               then [body1 ''move'' (JStr ''trading_post'')] else [])
              @ map (body1 ''sell'') ts)"
proof -
  consider
    (raised) e where "after_look s x y = ([Pause 6], Raised e)"
  | (failed) "after_look s x y = ([Pause 6, Pause 10], Continue)"
  | (rest) "after_look s x y = ([Pause 6, Act (body0 ''rest''), Pause 65], Continue)"
  | (flee) "after_look s x y = ([Pause 6, Act (body0 ''flee''), Pause 6], Continue)"
  | (sell) st where "read_status s = Inr st" "num_ge (inv_count st) (PyInt 8)"
      "after_look s x y = seq ([Pause 6], Continue) (sell_branch st)"
  | (random) st where
      "after_look s x y
         = seq ([Pause 6], Continue)
             (seq (random_action s st x) ([Pause (of_int (randint 10 20 y))], Continue))"
    using after_look_cases [of s x y] by blast
  then show ?thesis
  proof cases
    case sell
    from sell_branch_shape [of st] obtain ts where ts: "length ts \<le> 3"
      "acts (fst (sell_branch st))
          = (if zone st \<noteq> JStr ''trading_post'' then [body1 ''move'' (JStr ''trading_post'')]
             else [])
            @ map (body1 ''sell'') ts"
      by blast
    have "acts (fst (after_look s x y)) = acts (fst (sell_branch st))"
      by (simp add: sell(3) seq_def)
    then show ?thesis using sell(1,2) ts by auto
  next
    case random
    then show ?thesis using random_action_cases [of s st x] by (auto simp: seq_def)
  qed simp_all
qed

theorem one_action_unless_selling_witness:
  "\<exists>st ts. read_status
       (snapshot (JInt 50) (JInt 100) (JInt 40) ''shallows'' full_inventory ''calm water'')
        = Inr st
      \<and> num_ge (inv_count st) (PyInt 8) \<and> length ts \<le> 3
      \<and> acts (fst (after_look
                 (snapshot (JInt 50) (JInt 100) (JInt 40) ''shallows'' full_inventory
                    ''calm water'') 0 0))
          = (if zone st \<noteq> JStr ''trading_post''
             then [body1 ''move'' (JStr ''trading_post'')] else [])
            @ map (body1 ''sell'') ts"
proof -
  have "\<not> length (acts (fst (after_look
           (snapshot (JInt 50) (JInt 100) (JInt 40) ''shallows'' full_inventory ''calm water'')
           0 0))) \<le> 1"
    by (simp add: full_inventory_acts)
  then show ?thesis
    using one_action_unless_selling
      [of "snapshot (JInt 50) (JInt 100) (JInt 40) ''shallows'' full_inventory ''calm water''"
        0 0]
    by blast
qed

subsection \<open>C2: back-off on a rate limit\<close>

text \<open>
  Claim C2 says that on a rate-limit reply \<open>act\<close> sleeps for the duration of the reply's
  \<open>retryAfterSec\<close> field and then retries. With \<open>retryAfterSec = 5\<close> the sleep is 6
  seconds, not 5, and after the third such reply \<open>act\<close> sleeps and returns without another
  request.
\<close>

theorem rate_limit_backoff_counterexample:
  "attempt 1000000 (body0 ''look'') (Json (rate_limited (JInt 5))) = RateLimited 6
   \<and> act 1000000 (body0 ''look'') (\<lambda>_. Json (rate_limited (JInt 5))) 0
       = (failure,
          [Post (body0 ''look''), Sleep 6, Post (body0 ''look''), Sleep 6,
           Post (body0 ''look''), Sleep 6], 3)
   \<and> Sleep 5
       \<notin> set (fst (snd (act 1000000 (body0 ''look'') (\<lambda>_. Json (rate_limited (JInt 5))) 0)))"
proof -
  have a: "attempt 1000000 (body0 ''look'') (Json (rate_limited (JInt 5))) = RateLimited 6"
    by (simp add: attempt_def rate_limited_def and_then_def py_get_def py_in_def py_add_def
        num_add_def time_sleep_int)
  have b: "act 1000000 (body0 ''look'') (\<lambda>_. Json (rate_limited (JInt 5))) 0
       = (failure,
          [Post (body0 ''look''), Sleep 6, Post (body0 ''look''), Sleep 6,
           Post (body0 ''look''), Sleep 6], 3)"
    by (simp add: act_def numeral_3_eq_3 a)
  show ?thesis using a b by simp
qed

text \<open>
  Claim C2, amended. For every request body, when the reply is a dict whose \<open>error\<close> field
  contains \<open>"Rate limit"\<close> and whose \<open>retryAfterSec\<close> field (3 when absent) is a number \<open>x\<close>
  such that \<open>x + 1\<close> is a duration \<open>time.sleep\<close> accepts (not negative, not NaN, within 64-bit
  nanoseconds and within what the operating system accepts), the attempt sleeps \<open>x + 1\<close>
  seconds, one second more than the server supplied, and the loop goes on with the attempts
  that remain; and \<open>act\<close> never sends more than 3 requests. For an \<open>int\<close> \<open>x\<close> the sum is
  exact; for a \<open>float\<close> it is the double sum.
\<close>

theorem rate_limit_backoff:
  assumes "env i = Json d"
      and "py_get d ''error'' (JStr []) = Inr err" and "py_in ''Rate limit'' err = Inr True"
      and "py_get d ''retryAfterSec'' (JInt 3) = Inr x"
      and "py_add x (PyInt 1) = Inr v" and "time_sleep tmax v = Inr t"
  shows "attempt tmax body (env i) = RateLimited t
     \<and> exact v = Fin t \<and> 0 \<le> t \<and> t \<le> tmax
     \<and> (\<forall>k. x = JInt k \<longrightarrow> t = of_int k + 1 \<and> k + 1 \<le> 9223372036)
     \<and> act_loop (Suc n) tmax body env i
         = (fst (act_loop n tmax body env (Suc i)),
            Post body # Sleep t # fst (snd (act_loop n tmax body env (Suc i))),
            snd (snd (act_loop n tmax body env (Suc i))))
     \<and> length (posts (fst (snd (act tmax body env j)))) \<le> 3"
proof -
  have a: "attempt tmax body (env i) = RateLimited t"
    using assms by (simp add: attempt_rate_limited)
  have s: "exact v = Fin t \<and> 0 \<le> t \<and> t \<le> tmax"
    using assms(6) by (auto simp: time_sleep_def split: pyfloat.splits if_splits)
  have k: "t = of_int k + 1 \<and> k + 1 \<le> 9223372036" if "x = JInt k" for k
  proof -
    have "v = PyInt (k + 1)" using assms(5) that by (simp add: py_add_def num_add_def)
    then show ?thesis using assms(6) by (simp add: time_sleep_int split: if_splits)
  qed
  have b: "act_loop (Suc n) tmax body env i
         = (fst (act_loop n tmax body env (Suc i)),
            Post body # Sleep t # fst (snd (act_loop n tmax body env (Suc i))),
            snd (snd (act_loop n tmax body env (Suc i))))"
    using a by (simp add: act_loop_Suc del: act_loop.simps)
  show ?thesis using a s k b act_posts_le by blast
qed

theorem rate_limit_backoff_witness:
  "attempt 1000000 (body0 ''look'') (Json (JObj [(''error'', JStr ''Rate limit'')]))
     = RateLimited 4
   \<and> act_loop 1 1000000 (body0 ''look'') (\<lambda>_. Json (JObj [(''error'', JStr ''Rate limit'')])) 0
       = (failure, [Post (body0 ''look''), Sleep 4], 1)"
proof -
  let ?d = "JObj [(''error'', JStr ''Rate limit'')]"
  have 1: "(\<lambda>_. Json ?d) (0::nat) = Json ?d" by simp
  have 2: "py_get ?d ''error'' (JStr []) = Inr (JStr ''Rate limit'')" by (simp add: py_get_def)
  have 3: "py_in ''Rate limit'' (JStr ''Rate limit'') = Inr True" by (simp add: py_in_def)
  have 4: "py_get ?d ''retryAfterSec'' (JInt 3) = Inr (JInt 3)" by (simp add: py_get_def)
  have 5: "py_add (JInt 3) (PyInt 1) = Inr (PyInt 4)" by (simp add: py_add_def num_add_def)
  have 6: "time_sleep 1000000 (PyInt 4) = Inr 4" by (simp add: time_sleep_int)
  from rate_limit_backoff [of "\<lambda>_. Json ?d" 0, OF 1 2 3 4 5 6, of "body0 ''look''" 0 0]
  show ?thesis by simp
qed


subsection \<open>C3: thresholds of the random draw\<close>



subsection \<open>C4: sleeps of the loop\<close>



subsection \<open>C5: resting when resources are low\<close>




subsection \<open>C6: fleeing combat\<close>



subsection \<open>C7: \<open>act\<close> always returns\<close>

text \<open>
  Claim C7. For every request body and every behaviour of the server, \<open>act\<close> returns a value:
  either \<open>{"success": False}\<close> or the reply to one of at most three requests. No exception
  leaves it, since the handler catches every exception of the \<open>try\<close> body. When each of the
  three attempts ends in the rate-limit branch or in the handler, the value returned is
  \<open>{"success": False}\<close>, after exactly three requests.
\<close>

theorem act_always_returns:
  "(fst (act tmax body env i) = failure
      \<or> (\<exists>k<3. env (i + k) = Json (fst (act tmax body env i))))
   \<and> length (posts (fst (snd (act tmax body env i)))) \<le> 3
   \<and> ((\<forall>k<3. (\<exists>t. attempt tmax body (env (i + k)) = RateLimited t)
              \<or> (\<exists>e. attempt tmax body (env (i + k)) = Failed e))
        \<longrightarrow> fst (act tmax body env i) = failure
            \<and> posts (fst (snd (act tmax body env i))) = [body, body, body])"
  by (intro conjI impI act_result act_posts_le act_exhausted [THEN conjunct1]
      act_exhausted [THEN conjunct2])

theorem act_always_returns_witness:
  "attempt 1000000 (body0 ''look'') Raises = Failed RequestException
   \<and> fst (act 1000000 (body0 ''look'') (\<lambda>_. Raises) 0) = failure
   \<and> posts (fst (snd (act 1000000 (body0 ''look'') (\<lambda>_. Raises) 0)))
       = [body0 ''look'', body0 ''look'', body0 ''look'']"
proof -
  have a: "attempt 1000000 (body0 ''look'') Raises = Failed RequestException"
    by (simp add: attempt_def)
  then have h: "\<forall>k<3. (\<exists>t. attempt 1000000 (body0 ''look'') ((\<lambda>_. Raises) (0 + k)) = RateLimited t)
              \<or> (\<exists>e. attempt 1000000 (body0 ''look'') ((\<lambda>_. Raises) (0 + k)) = Failed e)"
    by simp
  have "fst (act 1000000 (body0 ''look'') (\<lambda>_. Raises) 0) = failure
     \<and> posts (fst (snd (act 1000000 (body0 ''look'') (\<lambda>_. Raises) 0)))
       = [body0 ''look'', body0 ''look'', body0 ''look'']"
    using act_always_returns [of 1000000 "body0 ''look''" "\<lambda>_. Raises" 0,
        THEN conjunct2, THEN conjunct2]
      h by (rule mp)
  with a show ?thesis by (rule conjI)
qed

subsection \<open>C8: a failed look\<close>

text \<open>
  Claim C8. When the value \<open>act\<close> returned for \<open>look\<close> has no true \<open>success\<close> field, the
  iteration issues no game action: after the 6 seconds that follow every look it sleeps 10
  seconds and continues with the next iteration, and every request of the iteration is a
  \<open>look\<close>.
\<close>

theorem failed_look_no_action:
  assumes "act tmax (body0 ''look'') env i = (s, evs, j)"
      and "py_get s ''success'' JNull = Inr ok" and "\<not> truthy ok"
  shows "after_look s x y = ([Pause 6, Pause 10], Continue)
       \<and> cycle tmax env x y i = (evs @ [Sleep 6, Sleep 10], Continue, j)
       \<and> set (posts (fst (cycle tmax env x y i))) \<subseteq> {body0 ''look''}"
proof -
  have a: "after_look s x y = ([Pause 6, Pause 10], Continue)"
    using assms(2,3) by (rule after_look_failed)
  have b: "cycle tmax env x y i = (evs @ [Sleep 6, Sleep 10], Continue, j)"
    by (simp add: cycle_def assms(1) a)
  have "set (posts evs) \<subseteq> {body0 ''look''}"
    using set_posts_act [of tmax "body0 ''look''" env i] assms(1) by simp
  then have c: "set (posts (fst (cycle tmax env x y i))) \<subseteq> {body0 ''look''}"
    by (simp add: b posts_append)
  show ?thesis using a b c by blast
qed

theorem failed_look_no_action_witness:
  "cycle 1000000 (\<lambda>_. Raises) 0 0 0
     = ([Post (body0 ''look''), Sleep 5, Post (body0 ''look''), Sleep 5,
         Post (body0 ''look''), Sleep 5, Sleep 6, Sleep 10], Continue, 3)"
proof -
  have 1: "act 1000000 (body0 ''look'') (\<lambda>_. Raises) 0
     = (failure, [Post (body0 ''look''), Sleep 5, Post (body0 ''look''), Sleep 5,
         Post (body0 ''look''), Sleep 5], 3)"
    by (simp add: act_def numeral_3_eq_3 attempt_def)
  have 2: "py_get failure ''success'' JNull = Inr (JBool False)"
    by (simp add: py_get_def failure_def)
  have 3: "\<not> truthy (JBool False)" by simp
  from failed_look_no_action [OF 1 2 3, of 0 0] show ?thesis by simp
qed

subsection \<open>C9: the sell branch\<close>



subsection \<open>C10: the gather branch\<close>



end
